theory Spec2Isabelle
  imports Complex_Main
begin

section \<open>Numerical arrays over exact reals\<close>

text \<open>
  The notebooks compute with NumPy, Jax and pandas arrays of floating-point numbers. The
  embedding takes a one-dimensional array to be a list of reals and every arithmetic
  operation to be exact. Where the floating-point code would produce \<open>inf\<close> or \<open>nan\<close>
  (a division by zero inside an array operation), HOL's total division returns \<open>0\<close>; the
  theorems below that depend on such a division carry the hypothesis that excludes it.
  Exceptions raised by Python or by the libraries are values of \<open>error\<close>.
\<close>

datatype error =
    ValueError | TypeError | ZeroDivisionError
  | FileNotFoundError | FileExistsError | IsADirectoryError

type_synonym array = "real list"

text \<open>
  Elementwise binary operations on two one-dimensional arrays follow NumPy's broadcasting
  rule: equal lengths combine pointwise, a length-one operand is stretched, and any other
  pair of shapes raises \<open>ValueError\<close>.
\<close>

definition broadcast2 :: "(real \<Rightarrow> real \<Rightarrow> real) \<Rightarrow> array \<Rightarrow> array \<Rightarrow> error + array" where
  "broadcast2 f xs ys =
     (if length xs = length ys then Inr (map2 f xs ys)
      else if length xs = 1 then Inr (map (f (hd xs)) ys)
      else if length ys = 1 then Inr (map (\<lambda>x. f x (hd ys)) xs)
      else Inl ValueError)"

text \<open>\<open>arr.max()\<close>: the largest entry; a zero-size array raises \<open>ValueError\<close>.\<close>

definition amax :: "array \<Rightarrow> error + real" where
  "amax xs = (if xs = [] then Inl ValueError else Inr (Max (set xs)))"

text \<open>
  \<open>np.linspace(start, stop, num)\<close> with the default \<open>endpoint=True\<close>: \<open>num\<close> evenly spaced
  samples, \<open>ValueError\<close> for a negative \<open>num\<close>, the single sample \<open>start\<close> for \<open>num = 1\<close>.
  (NumPy finally overwrites the last sample by \<open>stop\<close>, which in exact arithmetic is the
  value it already has.)
\<close>

definition linspace :: "real \<Rightarrow> real \<Rightarrow> int \<Rightarrow> error + array" where
  "linspace start stop num =
     (if num < 0 then Inl ValueError
      else
        let dv = num - 1; delta = stop - start
        in Inr (map (\<lambda>i. if 0 < dv then start + real i * (delta / real_of_int dv)
                          else start + real i * delta)
                    [0..<nat num]))"

text \<open>
  \<open>scipy.stats.lognorm.pdf(x, s=s, scale=scale)\<close>, the density of the log-normal
  distribution: \<open>pdf(y, s) / scale\<close> at \<open>y = x / scale\<close>, where
  \<open>pdf(y, s) = exp(-log(y)\<^sup>2 / (2 s\<^sup>2)) / (s y sqrt(2 \<pi>))\<close> for \<open>y > 0\<close> and \<open>0\<close> otherwise.
  The formula is the density for \<open>s > 0\<close> and \<open>scale > 0\<close>; for other shape or scale
  parameters SciPy returns \<open>nan\<close>, which the embedding does not represent.
\<close>

definition lognorm_pdf :: "real \<Rightarrow> real \<Rightarrow> real \<Rightarrow> real" where
  "lognorm_pdf x s scale =
     (let y = x / scale
      in if 0 < y then exp (- ((ln y)\<^sup>2) / (2 * s\<^sup>2)) / (s * y * sqrt (2 * pi)) / scale
         else 0)"

section \<open>The McCall job-search model (JobSearch\_Jax.ipynb)\<close>

subsection \<open>NumPy version\<close>

text \<open>
  \<^verbatim>\<open>
  def Tv(V, b, beta, p, wages):
      EV = np.sum(V * p)
      v_search = b + beta * EV
      v_accept = wages / (1 - beta)
      TV = np.maximum(v_accept, v_search)
      return TV
  \<close>
\<close>

definition Tv :: "array \<Rightarrow> real \<Rightarrow> real \<Rightarrow> array \<Rightarrow> array \<Rightarrow> error + array" where
  "Tv V b beta p wages =
     (case broadcast2 (*) V p of
        Inl e \<Rightarrow> Inl e
      | Inr Vp \<Rightarrow>
          let EV = sum_list Vp;
              v_search = b + beta * EV;
              v_accept = map (\<lambda>w. w / (1 - beta)) wages;
              TV = map (\<lambda>a. max a v_search) v_accept
          in Inr TV)"

text \<open>\<open>p = p / p.sum()\<close>: the density values divided by their sum.\<close>

definition normalize_p :: "array \<Rightarrow> array" where
  "normalize_p pdf = map (\<lambda>x. x / sum_list pdf) pdf"

text \<open>\<open>np.abs(V - TV).max()\<close>: the sup-norm distance of two arrays.\<close>

definition sup_dist :: "array \<Rightarrow> array \<Rightarrow> error + real" where
  "sup_dist V TV =
     (case broadcast2 (-) V TV of
        Inl e \<Rightarrow> Inl e
      | Inr D \<Rightarrow> amax (map abs D))"

text \<open>
  The first lines of \<open>McCall_VFI\<close>: the wage grid, the normalised probabilities and the
  unemployment benefit.
  \<^verbatim>\<open>
      wages = np.linspace(w_min, w_max, n+1)
      p = stats.lognorm.pdf(wages, s=sigma, scale=mu)
      p = p / p.sum() # normalize for truncated distribution
      expected_wage = np.sum(wages * p)
      b = theta * expected_wage
  \<close>
\<close>

definition McCall_grid ::
  "real \<Rightarrow> real \<Rightarrow> real \<Rightarrow> real \<Rightarrow> real \<Rightarrow> int \<Rightarrow> error + (array \<times> array \<times> real)" where
  "McCall_grid theta mu sigma w_min w_max n =
     (case linspace w_min w_max (n + 1) of
        Inl e \<Rightarrow> Inl e
      | Inr wages \<Rightarrow>
          let p = map (\<lambda>w. lognorm_pdf w sigma mu) wages;
              p = normalize_p p
          in (case broadcast2 (*) wages p of
                Inl e \<Rightarrow> Inl e
              | Inr wp \<Rightarrow>
                  let expected_wage = sum_list wp;
                      b = theta * expected_wage
                  in Inr (wages, p, b)))"

text \<open>
  The loop state is the triple \<open>(V, v_dist, iter)\<close>. One pass of the loop body:
  \<^verbatim>\<open>
          TV = Tv(V, b, beta, p, wages)
          v_dist = np.abs(V-TV).max()
          V = TV
          iter += 1
  \<close>
\<close>

type_synonym vfi_state = "array \<times> real \<times> int"

definition vfi_body :: "real \<Rightarrow> real \<Rightarrow> array \<Rightarrow> array \<Rightarrow> vfi_state \<Rightarrow> error + vfi_state" where
  "vfi_body b beta p wages s =
     (case s of (V, v_dist, iter) \<Rightarrow>
        (case Tv V b beta p wages of
           Inl e \<Rightarrow> Inl e
         | Inr TV \<Rightarrow>
             (case sup_dist V TV of
                Inl e \<Rightarrow> Inl e
              | Inr v_dist' \<Rightarrow> Inr (TV, v_dist', iter + 1))))"

text \<open>
  \<^verbatim>\<open>
      while (v_dist > v_tol) & (iter < max_iter):
          ...
      return V
  \<close>
  The loop returns its final state; an exception in the body ends it.
\<close>

function vfi_loop ::
  "real \<Rightarrow> real \<Rightarrow> array \<Rightarrow> array \<Rightarrow> real \<Rightarrow> int \<Rightarrow> vfi_state \<Rightarrow> error + vfi_state" where
  "vfi_loop b beta p wages v_tol max_iter s =
     (if fst (snd s) > v_tol \<and> snd (snd s) < max_iter then
        (case vfi_body b beta p wages s of
           Inl e \<Rightarrow> Inl e
         | Inr s' \<Rightarrow> vfi_loop b beta p wages v_tol max_iter s')
      else Inr s)"
  by pat_completeness auto
termination
proof (relation "measure (\<lambda>(b, beta, p, wages, v_tol, max_iter, s). nat (max_iter - snd (snd s)))")
  show "wf (measure (\<lambda>(b, beta, p, wages, v_tol, max_iter, s). nat (max_iter - snd (snd s))))"
    by simp
next
  fix b beta :: real and p wages :: array and v_tol :: real and max_iter :: int
    and s s' :: vfi_state
  assume guard: "v_tol < fst (snd s) \<and> snd (snd s) < max_iter"
    and body: "vfi_body b beta p wages s = Inr s'"
  from body have "snd (snd s') = snd (snd s) + 1"
    by (auto simp: vfi_body_def split: prod.splits sum.splits)
  with guard show "((b, beta, p, wages, v_tol, max_iter, s'), (b, beta, p, wages, v_tol, max_iter, s))
      \<in> measure (\<lambda>(b, beta, p, wages, v_tol, max_iter, s). nat (max_iter - snd (snd s)))"
    by simp
qed

text \<open>
  \<open>McCall_VFI\<close> with the final loop state made visible, and \<open>McCall_VFI\<close> itself, which
  returns the value function only. The policy array \<open>phi\<close> is allocated and never used.
  \<^verbatim>\<open>
      V = np.zeros(wages.size)
      v_dist = 10
      iter = 0
  \<close>
\<close>

definition McCall_VFI_run ::
  "real \<Rightarrow> real \<Rightarrow> real \<Rightarrow> real \<Rightarrow> real \<Rightarrow> real \<Rightarrow> int \<Rightarrow> real \<Rightarrow> int \<Rightarrow> error + vfi_state" where
  "McCall_VFI_run theta beta mu sigma w_min w_max n v_tol max_iter =
     (case McCall_grid theta mu sigma w_min w_max n of
        Inl e \<Rightarrow> Inl e
      | Inr (wages, p, b) \<Rightarrow>
          vfi_loop b beta p wages v_tol max_iter (replicate (length wages) 0, 10, 0))"


text \<open>
  The state after \<open>k\<close> passes of the loop body from the initial state, the guard left
  aside: the sequence of iterates the loop walks along.
\<close>

fun vfi_passes :: "real \<Rightarrow> real \<Rightarrow> array \<Rightarrow> array \<Rightarrow> nat \<Rightarrow> error + vfi_state" where
  "vfi_passes b beta p wages 0 = Inr (replicate (length wages) 0, 10, 0)"
| "vfi_passes b beta p wages (Suc k) =
     (case vfi_passes b beta p wages k of
        Inl e \<Rightarrow> Inl e
      | Inr s \<Rightarrow> vfi_body b beta p wages s)"

subsection \<open>Jax version\<close>

text \<open>
  The Jax cells repeat the NumPy ones with \<open>jnp\<close> in place of \<open>np\<close> inside the Bellman
  operator and the distance, and move the arrays to the accelerator first; the grid, the
  probabilities and the benefit are still computed with NumPy. \<open>jax.device_put\<close> turns a
  NumPy array into a Jax array with the same entries.

  Jax arrays follow the same broadcasting rule as NumPy arrays, but two shapes that do
  not broadcast raise \<open>TypeError\<close> where NumPy raises \<open>ValueError\<close>. The maximum of a
  zero-size array raises \<open>ValueError\<close> in both libraries.
\<close>

definition broadcast2_jax :: "(real \<Rightarrow> real \<Rightarrow> real) \<Rightarrow> array \<Rightarrow> array \<Rightarrow> error + array" where
  "broadcast2_jax f xs ys =
     (if length xs = length ys then Inr (map2 f xs ys)
      else if length xs = 1 then Inr (map (f (hd xs)) ys)
      else if length ys = 1 then Inr (map (\<lambda>x. f x (hd ys)) xs)
      else Inl TypeError)"

definition device_put :: "array \<Rightarrow> array" where
  "device_put x = x"

text \<open>
  \<^verbatim>\<open>
  def Tv_jax(V, b, beta, p, wages):
      EV = jnp.sum(V * p)
      v_search = b + beta * EV
      v_accept = wages / (1 - beta)
      TV = jnp.maximum(v_accept, v_search)
      return TV
  \<close>
  The arguments are Jax arrays, as in the notebook's calls.
\<close>

definition Tv_jax :: "array \<Rightarrow> real \<Rightarrow> real \<Rightarrow> array \<Rightarrow> array \<Rightarrow> error + array" where
  "Tv_jax V b beta p wages =
     (case broadcast2_jax (*) V p of
        Inl e \<Rightarrow> Inl e
      | Inr Vp \<Rightarrow>
          let EV = sum_list Vp;
              v_search = b + beta * EV;
              v_accept = map (\<lambda>w. w / (1 - beta)) wages;
              TV = map (\<lambda>a. max a v_search) v_accept
          in Inr TV)"

text \<open>\<open>jnp.abs(V - TV).max()\<close>\<close>

definition sup_dist_jax :: "array \<Rightarrow> array \<Rightarrow> error + real" where
  "sup_dist_jax V TV =
     (case broadcast2_jax (-) V TV of
        Inl e \<Rightarrow> Inl e
      | Inr D \<Rightarrow> amax (map abs D))"

definition vfi_body_jax :: "real \<Rightarrow> real \<Rightarrow> array \<Rightarrow> array \<Rightarrow> vfi_state \<Rightarrow> error + vfi_state" where
  "vfi_body_jax b beta p wages s =
     (case s of (V, v_dist, iter) \<Rightarrow>
        (case Tv_jax V b beta p wages of
           Inl e \<Rightarrow> Inl e
         | Inr TV \<Rightarrow>
             (case sup_dist_jax V TV of
                Inl e \<Rightarrow> Inl e
              | Inr v_dist' \<Rightarrow> Inr (TV, v_dist', iter + 1))))"

function vfi_loop_jax ::
  "real \<Rightarrow> real \<Rightarrow> array \<Rightarrow> array \<Rightarrow> real \<Rightarrow> int \<Rightarrow> vfi_state \<Rightarrow> error + vfi_state" where
  "vfi_loop_jax b beta p wages v_tol max_iter s =
     (if fst (snd s) > v_tol \<and> snd (snd s) < max_iter then
        (case vfi_body_jax b beta p wages s of
           Inl e \<Rightarrow> Inl e
         | Inr s' \<Rightarrow> vfi_loop_jax b beta p wages v_tol max_iter s')
      else Inr s)"
  by pat_completeness auto
termination
proof (relation "measure (\<lambda>(b, beta, p, wages, v_tol, max_iter, s). nat (max_iter - snd (snd s)))")
  show "wf (measure (\<lambda>(b, beta, p, wages, v_tol, max_iter, s). nat (max_iter - snd (snd s))))"
    by simp
next
  fix b beta :: real and p wages :: array and v_tol :: real and max_iter :: int
    and s s' :: vfi_state
  assume guard: "v_tol < fst (snd s) \<and> snd (snd s) < max_iter"
    and body: "vfi_body_jax b beta p wages s = Inr s'"
  from body have "snd (snd s') = snd (snd s) + 1"
    by (auto simp: vfi_body_jax_def split: prod.splits sum.splits)
  with guard show "((b, beta, p, wages, v_tol, max_iter, s'), (b, beta, p, wages, v_tol, max_iter, s))
      \<in> measure (\<lambda>(b, beta, p, wages, v_tol, max_iter, s). nat (max_iter - snd (snd s)))"
    by simp
qed

definition McCall_VFI_jax_run ::
  "real \<Rightarrow> real \<Rightarrow> real \<Rightarrow> real \<Rightarrow> real \<Rightarrow> real \<Rightarrow> int \<Rightarrow> real \<Rightarrow> int \<Rightarrow> error + vfi_state" where
  "McCall_VFI_jax_run theta beta mu sigma w_min w_max n v_tol max_iter =
     (case McCall_grid theta mu sigma w_min w_max n of
        Inl e \<Rightarrow> Inl e
      | Inr (wages, p, b) \<Rightarrow>
          let V = replicate (length wages) 0;
              wages = device_put wages;
              p = device_put p;
              V = device_put V
          in vfi_loop_jax b beta p wages v_tol max_iter (V, 10, 0))"


text \<open>The loop guard, as a predicate on the loop state.\<close>

definition vfi_guard :: "real \<Rightarrow> int \<Rightarrow> vfi_state \<Rightarrow> bool" where
  "vfi_guard v_tol max_iter s \<longleftrightarrow> fst (snd s) > v_tol \<and> snd (snd s) < max_iter"

section \<open>Average cost and its first-order condition (RootFinding.ipynb)\<close>

text \<open>
  \<^verbatim>\<open>
  def FOC_AC(x, *params):
      a, b, c = params
      error = -a * x ** -2 + c
      return error

  def avg_cost(x, *params):
      a, b, c = params
      ac = a * (x ** -1) + b + c * x
      return ac
  \<close>
  \<open>x\<close> is a scalar; a negative power of zero raises \<open>ZeroDivisionError\<close>.
\<close>

definition FOC_AC :: "real \<Rightarrow> real \<times> real \<times> real \<Rightarrow> error + real" where
  "FOC_AC x params =
     (case params of (a, b, c) \<Rightarrow>
        if x = 0 then Inl ZeroDivisionError
        else Inr (- a * x powi (- 2) + c))"

definition avg_cost :: "real \<Rightarrow> real \<times> real \<times> real \<Rightarrow> error + real" where
  "avg_cost x params =
     (case params of (a, b, c) \<Rightarrow>
        if x = 0 then Inl ZeroDivisionError
        else Inr (a * (x powi (- 1)) + b + c * x))"

text \<open>
  The closed form the notebook prints, \<^verbatim>\<open>(a/c) ** (1/2)\<close>. (For \<open>a / c < 0\<close> Python
  returns a complex number; the embedding covers \<open>a / c \<ge> 0\<close>.)
\<close>

definition analytical_solution :: "real \<Rightarrow> real \<Rightarrow> error + real" where
  "analytical_solution a c =
     (if c = 0 then Inl ZeroDivisionError else Inr ((a / c) powr (1 / 2)))"

section \<open>Files written and removed by the Dask notebook\<close>

text \<open>
  The data directory is a map from file names to entries. The notebook touches it through
  the readers (\<open>pd.read_csv\<close>, \<open>dd.read_csv\<close>, \<open>pd.read_stata\<close>), through \<open>to_csv\<close> of a
  pandas and of a Dask frame, through the two profiling scripts started with
  \<^verbatim>\<open>!python\<close>, and through \<open>os.remove\<close>. The contents of the files written are
  parameters of the model.
\<close>

datatype 'c entry = File 'c | Directory

type_synonym 'c fs = "string \<Rightarrow> 'c entry option"

datatype 'c fs_op =
    Read string
  | ReadStataNrows string
  | PdToCsv string 'c
  | DdToCsv string
  | Script string "'c option"
  | Remove string

definition read_file :: "string \<Rightarrow> 'c fs \<Rightarrow> error + 'c" where
  "read_file name fs =
     (case fs name of
        None \<Rightarrow> Inl FileNotFoundError
      | Some Directory \<Rightarrow> Inl IsADirectoryError
      | Some (File c) \<Rightarrow> Inr c)"

definition pd_to_csv :: "string \<Rightarrow> 'c \<Rightarrow> 'c fs \<Rightarrow> error + 'c fs" where
  "pd_to_csv name c fs =
     (case fs name of
        Some Directory \<Rightarrow> Inl IsADirectoryError
      | _ \<Rightarrow> Inr (fs(name \<mapsto> File c)))"

text \<open>
  \<open>to_csv\<close> of a Dask frame with a path that has no \<open>*\<close> writes one part file per
  partition into a directory of that name (\<open>trade_merged_dd.csv/0.part\<close>, ...); it
  raises \<open>FileExistsError\<close> when a regular file is at the path.
\<close>

definition dd_to_csv :: "string \<Rightarrow> 'c fs \<Rightarrow> error + 'c fs" where
  "dd_to_csv name fs =
     (case fs name of
        Some (File c) \<Rightarrow> Inl FileExistsError
      | _ \<Rightarrow> Inr (fs(name \<mapsto> Directory)))"

text \<open>
  \<open>os.remove\<close> deletes a file; on a directory it raises an \<open>OSError\<close>
  (\<open>IsADirectoryError\<close> on Linux, \<open>PermissionError\<close> on macOS).
\<close>

definition os_remove :: "string \<Rightarrow> 'c fs \<Rightarrow> error + 'c fs" where
  "os_remove name fs =
     (case fs name of
        None \<Rightarrow> Inl FileNotFoundError
      | Some Directory \<Rightarrow> Inl IsADirectoryError
      | Some (File c) \<Rightarrow> Inr (fs(name := None)))"

text \<open>
  \<open>pd.read_stata\<close> has no parameter \<open>nrows\<close>: the call
  \<^verbatim>\<open>pd.read_stata(DATA_FILE2, nrows=300_000)\<close> raises \<open>TypeError\<close> before it opens
  the file. A script started with \<^verbatim>\<open>!python\<close> that fails does not raise in the
  notebook: it either writes its output file (\<open>Some c\<close>) or leaves the directory alone.
\<close>

fun exec_op :: "'c fs_op \<Rightarrow> 'c fs \<Rightarrow> error + 'c fs" where
  "exec_op (Read name) fs = (case read_file name fs of Inl e \<Rightarrow> Inl e | Inr c \<Rightarrow> Inr fs)"
| "exec_op (ReadStataNrows name) fs = Inl TypeError"
| "exec_op (PdToCsv name c) fs = pd_to_csv name c fs"
| "exec_op (DdToCsv name) fs = dd_to_csv name fs"
| "exec_op (Script name None) fs = Inr fs"
| "exec_op (Script name (Some c)) fs =
     (case pd_to_csv name c fs of Inl e \<Rightarrow> Inr fs | Inr fs' \<Rightarrow> Inr fs')"
| "exec_op (Remove name) fs = os_remove name fs"

text \<open>Cells run in order; the first exception stops the run and leaves the directory as it is.\<close>

fun run_ops :: "'c fs_op list \<Rightarrow> 'c fs \<Rightarrow> error option \<times> 'c fs" where
  "run_ops [] fs = (None, fs)"
| "run_ops (x # xs) fs =
     (case exec_op x fs of
        Inl e \<Rightarrow> (Some e, fs)
      | Inr fs' \<Rightarrow> run_ops xs fs')"

definition DATA_FILE :: string where
  "DATA_FILE = ''trade_data_1962_to_2022.csv''"

definition DATA_FILE2 :: string where
  "DATA_FILE2 = ''sitc_country_country_product_year_4_2022.dta''"

definition merged_pd :: string where
  "merged_pd = ''trade_merged_pd.csv''"

definition merged_dd :: string where
  "merged_dd = ''trade_merged_dd.csv''"

text \<open>
  The two functions the notebook defines, and its last cell.
  \<^verbatim>\<open>
  def pd_profile_func(trade_data):
      partner_data = trade_data[['country_id', 'product_id', 'year', 'eci', 'coi']]
      merged = trade_data.merge(right=partner_data, left_on="partner_country_id", right_on="country_id")
      merged.to_csv(os.path.join(DATA_DIR, "trade_merged_pd.csv"))

  def dd_profile_func(trade_data):
      ...
      merged_dd = trade_data.merge(right=partner_data, left_on="partner_country_id", right_on="country_id")
      merged_dd.to_csv(os.path.join(DATA_DIR, "trade_merged_dd.csv"))

  # clean up files saved for this exercise
  os.remove(os.path.join(DATA_DIR, "trade_merged_pd.csv"))
  os.remove(os.path.join(DATA_DIR, "trade_merged_dd.csv"))
  \<close>
  \<open>pd_profile_func\<close> is applied to a pandas frame and \<open>dd_profile_func\<close> to a Dask frame;
  the argument \<open>out_pd\<close> is the CSV text of the merged pandas frame.
\<close>

definition pd_profile_func :: "'c \<Rightarrow> 'c fs_op list" where
  "pd_profile_func out_pd = [PdToCsv merged_pd out_pd]"

definition dd_profile_func :: "'c fs_op list" where
  "dd_profile_func = [DdToCsv merged_dd]"

definition cleanup_cell :: "'c fs_op list" where
  "cleanup_cell = [Remove merged_pd, Remove merged_dd]"

text \<open>
  The directory operations of the notebook's cells, top to bottom: the reads of the trade
  data (eager by pandas, lazy by Dask at \<open>head\<close>, \<open>describe\<close> and the group-by), the two
  profiling cells
  \<^verbatim>\<open>
  df = pd.read_stata(DATA_FILE2, nrows=300_000)
  %memit pd_profile_func(df)

  ddf = dd.from_pandas(pd.read_stata(DATA_FILE2, nrows=300_000))
  %memit dd_profile_func(ddf)
  \<close>
  the two profiling scripts (which, by the listings the notebook shows, write
  \<open>trade_merged_pd.csv\<close>), the read for the merge on index, and the cleanup cell.
\<close>

definition dask_notebook :: "'c \<Rightarrow> 'c option \<Rightarrow> 'c option \<Rightarrow> 'c fs_op list" where
  "dask_notebook out_pd script1 script2 =
     [Read DATA_FILE, Read DATA_FILE, Read DATA_FILE, Read DATA_FILE, Read DATA_FILE]
     @ ReadStataNrows DATA_FILE2 # pd_profile_func out_pd
     @ ReadStataNrows DATA_FILE2 # dd_profile_func
     @ [Script merged_pd script1, Script merged_pd script2, Read ''trade_data_2022.csv'']
     @ cleanup_cell"

text \<open>
  The two functions called on frames that were read without the \<open>nrows\<close> argument, followed
  by the cleanup cell.
\<close>

definition profile_and_cleanup :: "'c \<Rightarrow> 'c fs_op list" where
  "profile_and_cleanup out_pd = pd_profile_func out_pd @ dd_profile_func @ cleanup_cell"

text \<open>The names an operation may create, overwrite or delete.\<close>

fun op_writes :: "'c fs_op \<Rightarrow> string set" where
  "op_writes (Read name) = {}"
| "op_writes (ReadStataNrows name) = {}"
| "op_writes (PdToCsv name c) = {name}"
| "op_writes (DdToCsv name) = {name}"
| "op_writes (Script name out) = {name}"
| "op_writes (Remove name) = {name}"


section \<open>Mean of a column, at once and by chunks (BigDataTechniques.ipynb)\<close>

text \<open>
  A row of the trade table; a missing value (\<open>NaN\<close>) of a float column is \<open>None\<close>.
\<close>

record trade_row =
  country_id :: int
  partner_country_id :: int
  year :: int
  product_id :: int
  export_value :: "real option"
  import_value :: "real option"
  coi :: "real option"
  eci :: "real option"
  pci :: "real option"

type_synonym table = "trade_row list"

text \<open>
  \<open>Series.sum()\<close> and \<open>Series.count()\<close> skip missing values; \<open>Series.mean()\<close> is their
  quotient, and \<open>NaN\<close> (here \<open>None\<close>) when nothing is left.
\<close>

definition series_sum :: "real option list \<Rightarrow> real" where
  "series_sum xs = sum_list (map (\<lambda>x. case x of None \<Rightarrow> 0 | Some v \<Rightarrow> v) xs)"

definition series_count :: "real option list \<Rightarrow> nat" where
  "series_count xs = length (filter (\<lambda>x. x \<noteq> None) xs)"

definition series_mean :: "real option list \<Rightarrow> real option" where
  "series_mean xs =
     (if series_count xs = 0 then None else Some (series_sum xs / real (series_count xs)))"

text \<open>
  \<^verbatim>\<open>
  def full_data():
      df = pd.read_csv(DATA_FILE)
      mean_exports = df["export_value"].mean()
  \<close>
  The functions print the mean; the model returns it.
\<close>

definition full_data :: "table \<Rightarrow> real option" where
  "full_data df = series_mean (map export_value df)"

text \<open>
  \<^verbatim>\<open>
      total = 0
      count = 0
      for chunk in pd.read_csv(DATA_FILE, chunksize=chunksize):
          total += chunk["export_value"].sum()
          count += chunk["export_value"].count()
      print(f"Mean exports: {total/count:,.2f}")
  \<close>
  The accumulators \<open>total\<close> and \<open>count\<close> are \<open>tot\<close> and \<open>cnt\<close> below. Without any chunk they stay the Python integers \<open>0\<close> and the division raises; after a
  first chunk they are NumPy scalars, and \<open>0.0 / 0\<close> is \<open>NaN\<close>.
\<close>

fun chunk_loop :: "table list \<Rightarrow> real \<times> nat \<Rightarrow> real \<times> nat" where
  "chunk_loop [] (tot, cnt) = (tot, cnt)"
| "chunk_loop (chunk # rest) (tot, cnt) =
     chunk_loop rest
       (tot + series_sum (map export_value chunk),
        cnt + series_count (map export_value chunk))"

definition chunked_mean :: "table list \<Rightarrow> error + real option" where
  "chunked_mean chunks =
     (if chunks = [] then Inl ZeroDivisionError
      else
        (case chunk_loop chunks (0, 0) of (tot, cnt) \<Rightarrow>
           Inr (if cnt = 0 then None else Some (tot / real cnt))))"

text \<open>
  \<open>pd.read_csv(..., chunksize=k)\<close> yields the rows in consecutive blocks of \<open>k\<close>, the last
  one shorter; a table without rows yields one empty block.
\<close>

function chunks_of :: "nat \<Rightarrow> 'a list \<Rightarrow> 'a list list" where
  "chunks_of k rows =
     (if k = 0 \<or> rows = [] then [] else take k rows # chunks_of k (drop k rows))"
  by pat_completeness auto
termination
  by (relation "measure (\<lambda>(k, rows). length rows)") auto

definition read_csv_chunks :: "nat \<Rightarrow> table \<Rightarrow> table list" where
  "read_csv_chunks k rows = (if rows = [] then [[]] else chunks_of k rows)"

definition chunked_data :: "table \<Rightarrow> error + real option" where
  "chunked_data df = (let chunksize = 100000 in chunked_mean (read_csv_chunks chunksize df))"

text \<open>A row for examples: only \<open>export_value\<close> varies.\<close>

definition example_row :: "real option \<Rightarrow> trade_row" where
  "example_row v = \<lparr>country_id = 4, partner_country_id = 8, year = 2022, product_id = 650,
     export_value = v, import_value = None, coi = None, eci = None, pci = None\<rparr>"

declare vfi_loop.simps [simp del] vfi_loop_jax.simps [simp del] chunks_of.simps [simp del]

section \<open>Verification\<close>

subsection \<open>Shapes: the grid and one pass never raise for a nonnegative grid size\<close>

lemma broadcast2_same: "length xs = length ys \<Longrightarrow> broadcast2 f xs ys = Inr (map2 f xs ys)"
  by (simp add: broadcast2_def)


lemma Tv_same:
  "length V = length p \<Longrightarrow>
     Tv V b beta p wages =
       Inr (map (\<lambda>w. max (w / (1 - beta)) (b + beta * sum_list (map2 (*) V p))) wages)"
  by (simp add: Tv_def broadcast2_same Let_def)

lemma sup_dist_same:
  "length V = length W \<Longrightarrow> V \<noteq> [] \<Longrightarrow>
     sup_dist V W = Inr (Max (set (map abs (map2 (-) V W))))"
  by (auto simp: sup_dist_def broadcast2_same amax_def)

lemma vfi_body_ok:
  assumes "length V = length wages" "length p = length wages" "wages \<noteq> []"
  shows "\<exists>TV d. vfi_body b beta p wages (V, d0, i) = Inr (TV, d, i + 1) \<and> length TV = length wages"
proof -
  let ?TV = "map (\<lambda>w. max (w / (1 - beta)) (b + beta * sum_list (map2 (*) V p))) wages"
  have tv: "Tv V b beta p wages = Inr ?TV" using assms by (simp add: Tv_same)
  have "length V = length ?TV" "V \<noteq> []" using assms by auto
  then have "sup_dist V ?TV = Inr (Max (set (map abs (map2 (-) V ?TV))))"
    by (rule sup_dist_same)
  with tv show ?thesis by (simp add: vfi_body_def)
qed

lemma vfi_passes_ok:
  assumes "length p = length wages" "wages \<noteq> []"
  shows "\<exists>V d. vfi_passes b beta p wages k = Inr (V, d, int k) \<and> length V = length wages"
proof (induction k)
  case 0
  show ?case by simp
next
  case (Suc k)
  then obtain V d where s: "vfi_passes b beta p wages k = Inr (V, d, int k)"
    and len: "length V = length wages" by blast
  from vfi_body_ok [OF len assms, of b beta d "int k"] s
  show ?case by (auto simp: add.commute)
qed

lemma linspace_ok:
  "0 \<le> num \<Longrightarrow> \<exists>ws. linspace a c num = Inr ws \<and> length ws = nat num"
  by (simp add: linspace_def Let_def)

lemma McCall_grid_ok:
  assumes "0 \<le> n"
  shows "\<exists>wages p b. McCall_grid theta mu sigma w_min w_max n = Inr (wages, p, b) \<and>
           length p = length wages \<and> wages \<noteq> []"
proof -
  from assms obtain ws where ws: "linspace w_min w_max (n + 1) = Inr ws" "length ws = nat (n + 1)"
    using linspace_ok [of "n + 1" w_min w_max] by auto
  with assms have ne: "ws \<noteq> []" by auto
  have "length ws = length (normalize_p (map (\<lambda>w. lognorm_pdf w sigma mu) ws))"
    by (simp add: normalize_p_def)
  then show ?thesis using ws ne
    by (simp add: McCall_grid_def Let_def broadcast2_same normalize_p_def)
qed

lemma McCall_grid_Inl: "McCall_grid theta mu sigma w_min w_max n = Inl e \<Longrightarrow> n < 0"
  using McCall_grid_ok [of n theta mu sigma w_min w_max] by (cases "0 \<le> n") auto

subsection \<open>The density on the grid\<close>



lemma zero_density_grid:
  "linspace (- 2) (- 1) 2 = Inr [- 2, - 1] \<and>
   sum_list (map (\<lambda>w. lognorm_pdf w (1/2) 40) [- 2, - 1]) = 0"
  by (simp add: linspace_def Let_def upt_rec lognorm_pdf_def)








subsection \<open>The loop: where it stops, how many passes it makes, and the Jax copy\<close>

lemma vfi_loop_unfold:
  "vfi_loop b beta p wages v_tol max_iter s =
     (if vfi_guard v_tol max_iter s then
        (case vfi_body b beta p wages s of
           Inl e \<Rightarrow> Inl e
         | Inr s' \<Rightarrow> vfi_loop b beta p wages v_tol max_iter s')
      else Inr s)"
  by (subst vfi_loop.simps) (simp add: vfi_guard_def)

lemma vfi_loop_char:
  "length p = length wages \<Longrightarrow> wages \<noteq> [] \<Longrightarrow> vfi_passes b beta p wages k = Inr s \<Longrightarrow>
     \<exists>K s'. k \<le> K \<and> vfi_loop b beta p wages v_tol max_iter s = Inr s' \<and>
        vfi_passes b beta p wages K = Inr s' \<and> \<not> vfi_guard v_tol max_iter s' \<and>
        (\<forall>j. k \<le> j \<and> j < K \<longrightarrow>
           (\<exists>sj. vfi_passes b beta p wages j = Inr sj \<and> vfi_guard v_tol max_iter sj))"
proof (induction b beta p wages v_tol max_iter s arbitrary: k rule: vfi_loop.induct)
  case (1 b beta p wages v_tol max_iter s)
  note shape = "1.prems"(1,2) and start = "1.prems"(3)
  show ?case
  proof (cases "vfi_guard v_tol max_iter s")
    case False
    with start show ?thesis
      by (subst vfi_loop_unfold) (auto intro!: exI [of _ k])
  next
    case True
    from vfi_passes_ok [OF shape, of b beta "Suc k"]
    obtain s1 where s1: "vfi_passes b beta p wages (Suc k) = Inr s1" by blast
    with start have body: "vfi_body b beta p wages s = Inr s1" by simp
    from True have g: "v_tol < fst (snd s) \<and> snd (snd s) < max_iter"
      by (simp add: vfi_guard_def)
    from "1.IH" [OF g body shape s1]
    obtain K s' where K: "Suc k \<le> K"
      "vfi_loop b beta p wages v_tol max_iter s1 = Inr s'"
      "vfi_passes b beta p wages K = Inr s'" "\<not> vfi_guard v_tol max_iter s'"
      "\<forall>j. Suc k \<le> j \<and> j < K \<longrightarrow>
           (\<exists>sj. vfi_passes b beta p wages j = Inr sj \<and> vfi_guard v_tol max_iter sj)"
      by blast
    have loop: "vfi_loop b beta p wages v_tol max_iter s = Inr s'"
      using True body K(2) by (subst vfi_loop_unfold) simp
    have "\<forall>j. k \<le> j \<and> j < K \<longrightarrow>
           (\<exists>sj. vfi_passes b beta p wages j = Inr sj \<and> vfi_guard v_tol max_iter sj)"
    proof (intro allI impI)
      fix j assume j: "k \<le> j \<and> j < K"
      show "\<exists>sj. vfi_passes b beta p wages j = Inr sj \<and> vfi_guard v_tol max_iter sj"
      proof (cases "j = k")
        case True
        with start \<open>vfi_guard v_tol max_iter s\<close> show ?thesis by blast
      next
        case False
        with j have "Suc k \<le> j \<and> j < K" by simp
        with K(5) show ?thesis by blast
      qed
    qed
    with K loop show ?thesis
      by (intro exI [of _ K] exI [of _ s']) simp
  qed
qed

lemma vfi_loop_iter_bound:
  "vfi_loop b beta p wages v_tol max_iter s = Inr s' \<Longrightarrow>
     snd (snd s) \<le> snd (snd s') \<and> (snd (snd s') \<le> max_iter \<or> s' = s)"
proof (induction b beta p wages v_tol max_iter s rule: vfi_loop.induct)
  case (1 b beta p wages v_tol max_iter s)
  show ?case
  proof (cases "vfi_guard v_tol max_iter s")
    case False
    with "1.prems" show ?thesis
      by (subst (asm) vfi_loop_unfold) auto
  next
    case True
    with "1.prems" obtain s1 where body: "vfi_body b beta p wages s = Inr s1"
      and rest: "vfi_loop b beta p wages v_tol max_iter s1 = Inr s'"
      by (subst (asm) vfi_loop_unfold) (auto split: sum.splits)
    from True have g: "v_tol < fst (snd s) \<and> snd (snd s) < max_iter"
      by (simp add: vfi_guard_def)
    from body have step: "snd (snd s1) = snd (snd s) + 1"
      by (auto simp: vfi_body_def split: prod.splits sum.splits)
    from "1.IH" [OF g body rest] step g show ?thesis by auto
  qed
qed

lemma broadcast2_jax_Inr: "broadcast2 f xs ys = Inr zs \<Longrightarrow> broadcast2_jax f xs ys = Inr zs"
  by (auto simp: broadcast2_def broadcast2_jax_def split: if_splits)


lemma broadcast2_Inr_iff:
  "(\<exists>zs. broadcast2 f xs ys = Inr zs) \<longleftrightarrow>
     length xs = length ys \<or> length xs = 1 \<or> length ys = 1"
  by (auto simp: broadcast2_def)

lemma Tv_length: "Tv V b beta p wages = Inr TV \<Longrightarrow> length TV = length wages"
  by (auto simp: Tv_def Let_def split: sum.splits)

lemma Tv_jax_same:
  assumes "length V = length p \<or> length V = 1 \<or> length p = 1"
  shows "Tv_jax V b beta p wages = Tv V b beta p wages"
proof -
  from assms obtain Vp where "broadcast2 (*) V p = Inr Vp"
    using broadcast2_Inr_iff [of "(*)" V p] by blast
  moreover from this have "broadcast2_jax (*) V p = Inr Vp" by (rule broadcast2_jax_Inr)
  ultimately show ?thesis by (simp add: Tv_jax_def Tv_def)
qed


lemma sup_dist_jax_same: "length V = length W \<Longrightarrow> sup_dist_jax V W = sup_dist V W"
  by (simp add: sup_dist_jax_def sup_dist_def broadcast2_jax_def broadcast2_def)

lemma vfi_body_jax_eq:
  assumes "length (fst s) = length p" "length p = length wages"
  shows "vfi_body_jax b beta p wages s = vfi_body b beta p wages s"
proof -
  obtain V d i where s: "s = (V, d, i)" by (cases s)
  with assms have tv: "Tv_jax V b beta p wages = Tv V b beta p wages"
    by (simp add: Tv_jax_same)
  show ?thesis
  proof (cases "Tv V b beta p wages")
    case (Inl e)
    with tv s show ?thesis by (simp add: vfi_body_jax_def vfi_body_def)
  next
    case (Inr TV)
    then have "length TV = length wages" by (rule Tv_length)
    with assms s have "sup_dist_jax V TV = sup_dist V TV" by (simp add: sup_dist_jax_same)
    with tv s Inr show ?thesis by (simp add: vfi_body_jax_def vfi_body_def)
  qed
qed

lemma vfi_body_shape:
  "vfi_body b beta p wages s = Inr s' \<Longrightarrow> length (fst s') = length wages"
  by (auto simp: vfi_body_def dest: Tv_length split: sum.splits prod.splits)

lemma vfi_loop_jax_eq:
  "length (fst s) = length p \<Longrightarrow> length p = length wages \<Longrightarrow>
     vfi_loop_jax b beta p wages v_tol max_iter s = vfi_loop b beta p wages v_tol max_iter s"
proof (induction b beta p wages v_tol max_iter s rule: vfi_loop.induct)
  case (1 b beta p wages v_tol max_iter s)
  note shape = "1.prems"
  have L: "vfi_loop_jax b beta p wages v_tol max_iter s =
     (if fst (snd s) > v_tol \<and> snd (snd s) < max_iter then
        (case vfi_body b beta p wages s of
           Inl e \<Rightarrow> Inl e
         | Inr s' \<Rightarrow> vfi_loop_jax b beta p wages v_tol max_iter s')
      else Inr s)"
    by (subst vfi_loop_jax.simps) (simp add: vfi_body_jax_eq [OF shape])
  have R: "vfi_loop b beta p wages v_tol max_iter s =
     (if fst (snd s) > v_tol \<and> snd (snd s) < max_iter then
        (case vfi_body b beta p wages s of
           Inl e \<Rightarrow> Inl e
         | Inr s' \<Rightarrow> vfi_loop b beta p wages v_tol max_iter s')
      else Inr s)"
    by (rule vfi_loop.simps)
  show ?case
  proof (cases "v_tol < fst (snd s) \<and> snd (snd s) < max_iter")
    case False
    show ?thesis by (simp only: L R if_not_P [OF False])
  next
    case True
    show ?thesis
    proof (cases "vfi_body b beta p wages s")
      case (Inl e)
      show ?thesis by (simp only: L R if_P [OF True] Inl sum.case)
    next
      case (Inr s1)
      from Inr shape(2) have "length (fst s1) = length p" by (simp add: vfi_body_shape)
      from "1.IH" [OF True Inr this shape(2)] show ?thesis
        by (simp only: L R if_P [OF True] Inr sum.case)
    qed
  qed
qed

lemma McCall_grid_shape:
  "McCall_grid theta mu sigma w_min w_max n = Inr (wages, p, b) \<Longrightarrow> length p = length wages"
  by (auto simp: McCall_grid_def Let_def normalize_p_def split: sum.splits)

lemma McCall_VFI_jax_run_eq:
  "McCall_VFI_jax_run theta beta mu sigma w_min w_max n v_tol max_iter =
   McCall_VFI_run theta beta mu sigma w_min w_max n v_tol max_iter"
proof (cases "McCall_grid theta mu sigma w_min w_max n")
  case (Inl e)
  then show ?thesis by (simp add: McCall_VFI_jax_run_def McCall_VFI_run_def)
next
  case (Inr g)
  obtain wages p b where g: "g = (wages, p, b)" by (cases g)
  with Inr have "length p = length wages" by (simp add: McCall_grid_shape)
  then have "vfi_loop_jax b beta p wages v_tol max_iter (replicate (length wages) 0, 10, 0) =
      vfi_loop b beta p wages v_tol max_iter (replicate (length wages) 0, 10, 0)"
    by (intro vfi_loop_jax_eq) simp_all
  with Inr g show ?thesis
    by (simp add: McCall_VFI_jax_run_def McCall_VFI_run_def device_put_def)
qed

subsection \<open>Claims on the loop of McCall\_VFI\<close>

lemma vfi_passes_iter: "vfi_passes b beta p wages k = Inr s \<Longrightarrow> snd (snd s) = int k"
proof (induction k arbitrary: s)
  case 0
  then show ?case by auto
next
  case (Suc k)
  then show ?case
    by (auto simp: vfi_body_def split: sum.splits prod.splits)
qed

lemma vfi_loop_passes:
  "vfi_passes b beta p wages k = Inr s \<Longrightarrow> vfi_loop b beta p wages v_tol max_iter s = Inr s' \<Longrightarrow>
     \<exists>K\<ge>k. vfi_passes b beta p wages K = Inr s'"
proof (induction b beta p wages v_tol max_iter s arbitrary: k rule: vfi_loop.induct)
  case (1 b beta p wages v_tol max_iter s)
  show ?case
  proof (cases "vfi_guard v_tol max_iter s")
    case False
    with "1.prems" show ?thesis
      by (subst (asm) vfi_loop_unfold) auto
  next
    case True
    with "1.prems"(2) obtain s1 where body: "vfi_body b beta p wages s = Inr s1"
      and rest: "vfi_loop b beta p wages v_tol max_iter s1 = Inr s'"
      by (subst (asm) vfi_loop_unfold) (auto split: sum.splits)
    from True have g: "v_tol < fst (snd s) \<and> snd (snd s) < max_iter"
      by (simp add: vfi_guard_def)
    from "1.prems"(1) body have "vfi_passes b beta p wages (Suc k) = Inr s1" by simp
    from "1.IH" [OF g body this rest] obtain K where "Suc k \<le> K" "vfi_passes b beta p wages K = Inr s'"
      by blast
    then show ?thesis by (intro exI [of _ K]) simp
  qed
qed




text \<open>
  Claim C5. For a natural number \<open>max_iter\<close> the loop of \<open>McCall_VFI\<close> always ends: the
  run returns a final state whose counter \<open>iter\<close> lies between \<open>0\<close> and \<open>max_iter\<close> and
  equals the number of passes made (the state is the one reached after \<open>iter\<close> passes of
  the body), whatever the distances were; an exception is possible only for a negative
  grid size. \<open>McCall_VFI_jax\<close> runs the same loop with the same final state.
\<close>

theorem McCall_VFI_at_most_max_iter_passes:
  assumes "0 \<le> max_iter"
  shows "(case McCall_VFI_run theta beta mu sigma w_min w_max n v_tol max_iter of
            Inl e \<Rightarrow> n < 0
          | Inr (V, v_dist, iter) \<Rightarrow>
              0 \<le> iter \<and> iter \<le> max_iter \<and>
              (\<exists>wages p b. McCall_grid theta mu sigma w_min w_max n = Inr (wages, p, b) \<and>
                 vfi_passes b beta p wages (nat iter) = Inr (V, v_dist, iter))) \<and>
         McCall_VFI_jax_run theta beta mu sigma w_min w_max n v_tol max_iter =
         McCall_VFI_run theta beta mu sigma w_min w_max n v_tol max_iter"
proof (rule conjI)
  show "McCall_VFI_jax_run theta beta mu sigma w_min w_max n v_tol max_iter =
        McCall_VFI_run theta beta mu sigma w_min w_max n v_tol max_iter"
    by (rule McCall_VFI_jax_run_eq)
next
  let ?run = "McCall_VFI_run theta beta mu sigma w_min w_max n v_tol max_iter"
  show "case ?run of
          Inl e \<Rightarrow> n < 0
        | Inr (V, v_dist, iter) \<Rightarrow>
            0 \<le> iter \<and> iter \<le> max_iter \<and>
            (\<exists>wages p b. McCall_grid theta mu sigma w_min w_max n = Inr (wages, p, b) \<and>
               vfi_passes b beta p wages (nat iter) = Inr (V, v_dist, iter))"
  proof (cases ?run)
    case (Inr s')
    then obtain wages p b where grid: "McCall_grid theta mu sigma w_min w_max n = Inr (wages, p, b)"
      and loop: "vfi_loop b beta p wages v_tol max_iter (replicate (length wages) 0, 10, 0) = Inr s'"
      by (auto simp: McCall_VFI_run_def split: sum.splits)
    have start: "vfi_passes b beta p wages 0 = Inr (replicate (length wages) 0, 10, 0)" by simp
    from vfi_loop_passes [OF start loop] obtain K where K: "vfi_passes b beta p wages K = Inr s'"
      by blast
    then have it: "snd (snd s') = int K" by (rule vfi_passes_iter)
    from vfi_loop_iter_bound [OF loop] assms have "snd (snd s') \<le> max_iter" by auto
    with it K grid Inr show ?thesis by (cases s') auto
  next
    case (Inl e)
    show ?thesis
    proof (cases "0 \<le> n")
      case False
      with Inl show ?thesis by simp
    next
      case True
      from McCall_grid_ok [OF True, of theta mu sigma w_min w_max]
      obtain wages p b where grid: "McCall_grid theta mu sigma w_min w_max n = Inr (wages, p, b)"
        and shape: "length p = length wages" "wages \<noteq> []" by blast
      have start: "vfi_passes b beta p wages 0 = Inr (replicate (length wages) 0, 10, 0)" by simp
      from vfi_loop_char [OF shape start, of v_tol max_iter] grid Inl show ?thesis
        by (auto simp: McCall_VFI_run_def)
    qed
  qed
qed

text \<open>
  The bound at the notebook's default parameters.
\<close>

theorem McCall_VFI_at_most_max_iter_passes_witness:
  "(0::int) \<le> 1000 \<and>
   (case McCall_VFI_run (3/10) (99/100) 40 (1/2) 10 100 1000000 (1/1000000) 1000 of
            Inl e \<Rightarrow> (1000000::int) < 0
          | Inr (V, v_dist, iter) \<Rightarrow>
              0 \<le> iter \<and> iter \<le> 1000 \<and>
              (\<exists>wages p b. McCall_grid (3/10) 40 (1/2) 10 100 1000000 = Inr (wages, p, b) \<and>
                 vfi_passes b (99/100) p wages (nat iter) = Inr (V, v_dist, iter))) \<and>
         McCall_VFI_jax_run (3/10) (99/100) 40 (1/2) 10 100 1000000 (1/1000000) 1000 =
         McCall_VFI_run (3/10) (99/100) 40 (1/2) 10 100 1000000 (1/1000000) 1000"
  using McCall_VFI_at_most_max_iter_passes [where max_iter = 1000 and theta = "3/10"
      and beta = "99/100" and mu = 40 and sigma = "1/2" and w_min = 10 and w_max = 100
      and n = 1000000 and v_tol = "1/1000000"]
  by simp



subsection \<open>A run that stops at max\_iter\<close>







subsection \<open>Monotonicity of the Bellman operator\<close>

lemma sum_list_map2_mono:
  "list_all2 (\<le>) V V' \<Longrightarrow> \<forall>x\<in>set p. 0 \<le> x \<Longrightarrow>
     sum_list (map2 (*) V p) \<le> sum_list (map2 (*) V' (p::real list))"
proof (induction V V' arbitrary: p rule: list_all2_induct)
  case Nil
  show ?case by simp
next
  case (Cons v V v' V')
  show ?case
  proof (cases p)
    case Nil
    then show ?thesis by simp
  next
    case (Cons q qs)
    with Cons.prems have "0 \<le> q" "\<forall>x\<in>set qs. 0 \<le> x" by auto
    with Cons.IH [of qs] Cons.hyps(1) have "v * q \<le> v' * q"
      "sum_list (map2 (*) V qs) \<le> sum_list (map2 (*) V' qs)"
      by (auto intro: mult_right_mono)
    with Cons show ?thesis by simp
  qed
qed

lemma sum_list_scale_mono:
  "list_all2 (\<le>) V V' \<Longrightarrow> 0 \<le> q \<Longrightarrow>
     sum_list (map (\<lambda>x. x * q) V) \<le> sum_list (map (\<lambda>x. x * (q::real)) V')"
  by (induction V V' rule: list_all2_induct) (auto intro: add_mono mult_right_mono)

lemma sum_list_scalar_mono:
  "v \<le> v' \<Longrightarrow> \<forall>x\<in>set p. 0 \<le> x \<Longrightarrow>
     sum_list (map ((*) v) p) \<le> sum_list (map ((*) v') (p::real list))"
  by (rule sum_list_mono) (auto intro: mult_right_mono)

lemma broadcast2_mult_mono:
  assumes "list_all2 (\<le>) V V'" "\<forall>x\<in>set p. 0 \<le> x"
  shows "rel_sum (=) (\<lambda>xs ys. sum_list xs \<le> sum_list ys)
           (broadcast2 (*) V p) (broadcast2 (*) V' p)"
proof -
  from assms(1) have len: "length V = length V'" by (rule list_all2_lengthD)
  consider (same) "length V = length p"
    | (left) "length V \<noteq> length p" "length V = 1"
    | (right) "length V \<noteq> length p" "length V \<noteq> 1" "length p = 1"
    | (bad) "length V \<noteq> length p" "length V \<noteq> 1" "length p \<noteq> 1"
    by blast
  then show ?thesis
  proof cases
    case same
    with len assms show ?thesis
      by (simp add: broadcast2_def sum_list_map2_mono)
  next
    case left
    with len obtain v v' where vv: "V = [v]" "V' = [v']"
      by (cases V; cases V') auto
    with assms(1) have "v \<le> v'" by simp
    with left vv assms(2) show ?thesis
      by (simp add: broadcast2_def sum_list_scalar_mono)
  next
    case right
    then obtain q where q: "p = [q]" by (cases p) auto
    with assms(2) have "0 \<le> q" by simp
    with right len q assms(1) show ?thesis
      by (simp add: broadcast2_def sum_list_scale_mono)
  next
    case bad
    with len show ?thesis by (simp add: broadcast2_def)
  qed
qed

text \<open>
  Claim C8. The Bellman operator is monotone: for \<open>beta\<close> in \<open>[0, 1)\<close>, nonnegative \<open>p\<close>
  and value vectors \<open>V \<le> V'\<close> of equal length, \<open>Tv V\<close> and \<open>Tv V'\<close> either raise the same
  exception (shapes that do not broadcast) or return arrays with \<open>Tv V \<le> Tv V'\<close>
  componentwise; and every array \<open>Tv\<close> returns is componentwise at least
  \<open>wages / (1 - beta)\<close>.
\<close>

theorem Tv_monotone:
  assumes "0 \<le> beta" "beta < 1" "\<forall>x\<in>set p. 0 \<le> x" "list_all2 (\<le>) V V'"
  shows "rel_sum (=) (list_all2 (\<le>)) (Tv V b beta p wages) (Tv V' b beta p wages) \<and>
         (\<forall>TV. Tv V b beta p wages = Inr TV \<longrightarrow>
            list_all2 (\<le>) (map (\<lambda>w. w / (1 - beta)) wages) TV)"
proof (rule conjI)
  show "\<forall>TV. Tv V b beta p wages = Inr TV \<longrightarrow>
          list_all2 (\<le>) (map (\<lambda>w. w / (1 - beta)) wages) TV"
    by (auto simp: Tv_def Let_def list_all2_conv_all_nth split: sum.splits)
next
  have bc: "rel_sum (=) (\<lambda>xs ys. sum_list xs \<le> sum_list ys)
           (broadcast2 (*) V p) (broadcast2 (*) V' p)"
    by (rule broadcast2_mult_mono [OF assms(4,3)])
  show "rel_sum (=) (list_all2 (\<le>)) (Tv V b beta p wages) (Tv V' b beta p wages)"
  proof (cases "broadcast2 (*) V p")
    case (Inl e)
    with bc have "broadcast2 (*) V' p = Inl e"
      by (cases "broadcast2 (*) V' p") auto
    with Inl show ?thesis by (simp add: Tv_def)
  next
    case (Inr Vp)
    with bc obtain Vp' where Inr': "broadcast2 (*) V' p = Inr Vp'"
      and le: "sum_list Vp \<le> sum_list Vp'"
      by (cases "broadcast2 (*) V' p") auto
    from le assms(1) have "b + beta * sum_list Vp \<le> b + beta * sum_list Vp'"
      by (simp add: mult_left_mono)
    then have "list_all2 (\<le>)
        (map (\<lambda>w. max (w / (1 - beta)) (b + beta * sum_list Vp)) wages)
        (map (\<lambda>w. max (w / (1 - beta)) (b + beta * sum_list Vp')) wages)"
      by (auto simp: list_all2_conv_all_nth)
    with Inr Inr' show ?thesis by (simp add: Tv_def Let_def o_def)
  qed
qed

text \<open>
  Monotonicity at a two-point grid.
\<close>

theorem Tv_monotone_witness:
  "(0::real) \<le> 1/2 \<and> (1/2::real) < 1 \<and> list_all2 (\<le>) [0, 1::real] [2, 3] \<and>
   rel_sum (=) (list_all2 (\<le>)) (Tv [0, 1] 1 (1/2) [1/2, 1/2] [1, 2])
      (Tv [2, 3] 1 (1/2) [1/2, 1/2] [1, 2]) \<and>
   Tv [0, 1] 1 (1/2) [1/2, 1/2] [1, 2] = Inr [2, 4] \<and>
   list_all2 (\<le>) (map (\<lambda>w. w / (1 - 1/2)) [1, 2]) [2, 4 :: real]"
proof -
  have h: "(0::real) \<le> 1/2" "(1/2::real) < 1" "\<forall>x\<in>set [1/2, 1/2::real]. 0 \<le> x"
    "list_all2 (\<le>) [0, 1::real] [2, 3]" by simp_all
  have tv: "Tv [0, 1] 1 (1/2) [1/2, 1/2] [1, 2] = Inr [2, 4]"
    by (simp add: Tv_def broadcast2_def Let_def)
  from Tv_monotone [OF h, of 1 "[1, 2]"] tv h show ?thesis by blast
qed

subsection \<open>Invariants of the iterates\<close>







subsection \<open>A discount factor above one\<close>





subsection \<open>The first-order condition of average cost\<close>

lemma powi_m2: "x powi (- 2) = inverse (x\<^sup>2)" for x :: real
  by (simp add: power_int_minus)

lemma powi_m1: "x powi (- 1) = inverse x" for x :: real
  by (simp add: power_int_minus)

lemma FOC_AC_nonzero: "x \<noteq> 0 \<Longrightarrow> FOC_AC x (a, b, c) = Inr (c - a / x\<^sup>2)"
  by (simp add: FOC_AC_def powi_m2 divide_inverse)

lemma avg_cost_nonzero: "x \<noteq> 0 \<Longrightarrow> avg_cost x (a, b, c) = Inr (a / x + b + c * x)"
  by (simp add: avg_cost_def powi_m1 divide_inverse)

lemma analytical_solution_sqrt:
  assumes "0 < a" "0 < c"
  shows "analytical_solution a c = Inr (sqrt (a / c))"
  using assms by (simp add: analytical_solution_def powr_half_sqrt)

lemma FOC_AC_root_iff:
  assumes "0 < a" "0 < c" "0 < x"
  shows "FOC_AC x (a, b, c) = Inr 0 \<longleftrightarrow> x = sqrt (a / c)"
proof -
  from assms have "FOC_AC x (a, b, c) = Inr 0 \<longleftrightarrow> c * x\<^sup>2 = a"
    by (simp add: FOC_AC_nonzero field_simps)
  also from assms have "\<dots> \<longleftrightarrow> x\<^sup>2 = a / c" by (auto simp: field_simps)
  also from assms have "\<dots> \<longleftrightarrow> x = sqrt (a / c)"
    by (metis real_sqrt_unique less_imp_le real_sqrt_pow2 divide_pos_pos)
  finally show ?thesis .
qed

lemma avg_cost_min:
  assumes "0 < a" "0 < c" "0 < x"
  shows "a / sqrt (a / c) + b + c * sqrt (a / c) \<le> a / x + b + c * x"
proof -
  define s where "s = sqrt (a / c)"
  from assms have s: "0 < s" by (simp add: s_def)
  from assms have "s\<^sup>2 = a / c" by (simp add: s_def)
  with assms have a: "a = c * s\<^sup>2" by (simp add: field_simps)
  have "(a / x + b + c * x) - (a / s + b + c * s) = c * (x - s)\<^sup>2 / x"
    using s assms(3) unfolding a by (simp add: field_simps power2_eq_square)
  moreover from assms have "0 \<le> c * (x - s)\<^sup>2 / x" by simp
  ultimately show ?thesis unfolding s_def by linarith
qed

lemma avg_cost_deriv:
  assumes "x \<noteq> 0"
  shows "((\<lambda>t. projr (avg_cost t (a, b, c))) has_real_derivative projr (FOC_AC x (a, b, c))) (at x)"
proof -
  have d: "((\<lambda>t. a / t + b + c * t) has_real_derivative (c - a / x\<^sup>2)) (at x)"
    using assms by (auto intro!: derivative_eq_intros simp: power2_eq_square)
  have ev: "eventually (\<lambda>t. projr (avg_cost t (a, b, c)) = a / t + b + c * t) (nhds x)"
  proof -
    have "eventually (\<lambda>t. t \<noteq> 0) (nhds x)"
      using assms by (simp add: t1_space_nhds)
    then show ?thesis
      by (rule eventually_mono) (simp add: avg_cost_nonzero)
  qed
  have "((\<lambda>t. projr (avg_cost t (a, b, c))) has_real_derivative (c - a / x\<^sup>2)) (at x)"
    using d ev by (simp add: DERIV_cong_ev [OF refl ev refl])
  with assms show ?thesis by (simp add: FOC_AC_nonzero)
qed

text \<open>
  The exact mathematics of the notebook's example. For positive cost parameters \<open>a\<close>,
  \<open>b\<close>, \<open>c\<close> the closed form \<open>x_hat = (a/c) ** (1/2)\<close> is positive and a root of
  \<open>FOC_AC\<close>; every positive root of \<open>FOC_AC\<close> equals it; it minimises \<open>avg_cost\<close> over
  \<open>x > 0\<close>; and at every \<open>x > 0\<close> the value of \<open>FOC_AC\<close> is the derivative of
  \<open>avg_cost\<close>. \<open>FOC_AC\<close> has a second root, \<open>- x_hat\<close>. What \<open>opt.root\<close> returns from its
  starting point is the result of SciPy's iterative floating-point routine, which this
  embedding does not contain: nothing is proved here about the root it finds.
\<close>

lemma FOC_AC_closed_form:
  assumes "0 < a" "0 < b" "0 < c"
  shows "\<exists>x_hat. analytical_solution a c = Inr x_hat \<and> 0 < x_hat \<and>
           FOC_AC x_hat (a, b, c) = Inr 0 \<and>
           (\<forall>x>0. FOC_AC x (a, b, c) = Inr 0 \<longrightarrow> x = x_hat) \<and>
           (\<forall>x>0. \<exists>y y_hat. avg_cost x (a, b, c) = Inr y \<and>
                     avg_cost x_hat (a, b, c) = Inr y_hat \<and> y_hat \<le> y) \<and>
           (\<forall>x>0. ((\<lambda>t. projr (avg_cost t (a, b, c))) has_real_derivative
                     projr (FOC_AC x (a, b, c))) (at x))"
proof -
  let ?s = "sqrt (a / c)"
  from assms have pos: "0 < ?s" by simp
  then have nz: "?s \<noteq> 0" by (rule less_imp_neq [THEN not_sym])
  from assms have sol: "analytical_solution a c = Inr ?s" by (simp add: analytical_solution_sqrt)
  from assms pos have root: "FOC_AC ?s (a, b, c) = Inr 0" by (simp add: FOC_AC_root_iff)
  have uniq: "\<forall>x>0. FOC_AC x (a, b, c) = Inr 0 \<longrightarrow> x = ?s"
    using assms by (simp add: FOC_AC_root_iff)
  have minimal: "\<forall>x>0. \<exists>y y_hat. avg_cost x (a, b, c) = Inr y \<and>
                     avg_cost ?s (a, b, c) = Inr y_hat \<and> y_hat \<le> y"
  proof (intro allI impI)
    fix x :: real assume x: "0 < x"
    from nz have "avg_cost ?s (a, b, c) = Inr (a / ?s + b + c * ?s)"
      by (rule avg_cost_nonzero)
    moreover from x have "avg_cost x (a, b, c) = Inr (a / x + b + c * x)"
      by (intro avg_cost_nonzero) simp
    ultimately show "\<exists>y y_hat. avg_cost x (a, b, c) = Inr y \<and>
                     avg_cost ?s (a, b, c) = Inr y_hat \<and> y_hat \<le> y"
      using avg_cost_min [OF assms(1,3) x, of b] by simp
  qed
  have deriv: "\<forall>x>0. ((\<lambda>t. projr (avg_cost t (a, b, c))) has_real_derivative
                     projr (FOC_AC x (a, b, c))) (at x)"
    by (intro allI impI avg_cost_deriv) simp
  from sol pos root uniq minimal deriv show ?thesis by blast
qed

lemma FOC_AC_negative_root:
  "FOC_AC (- sqrt (1/3)) (1, 2, 3) = Inr 0 \<and> analytical_solution 1 3 = Inr (sqrt (1/3)) \<and>
   - sqrt (1/3) \<noteq> sqrt (1/3 :: real)"
proof -
  have "FOC_AC (- sqrt (1/3)) (1, 2, 3) = Inr 0"
    by (subst FOC_AC_nonzero) simp_all
  moreover have "analytical_solution 1 3 = Inr (sqrt (1/3))"
    by (simp add: analytical_solution_sqrt)
  ultimately show ?thesis by simp
qed

subsection \<open>The data directory of the Dask notebook\<close>

lemma exec_op_frame:
  "exec_op x fs = Inr fs' \<Longrightarrow> name \<notin> op_writes x \<Longrightarrow> fs' name = fs name"
proof (cases x)
  case (Script n out)
  assume "exec_op x fs = Inr fs'" "name \<notin> op_writes x"
  with Script show ?thesis
    by (cases out) (auto simp: pd_to_csv_def split: sum.splits option.splits entry.splits)
qed (auto simp: read_file_def pd_to_csv_def dd_to_csv_def os_remove_def
      split: sum.splits option.splits entry.splits)

text \<open>
  Whatever is written and wherever a run stops, an entry that no operation names is left
  as it was.
\<close>

lemma run_ops_frame:
  "\<forall>x\<in>set ops. name \<notin> op_writes x \<Longrightarrow> snd (run_ops ops fs) name = fs name"
proof (induction ops arbitrary: fs)
  case Nil
  show ?case by simp
next
  case (Cons x ops)
  show ?case
  proof (cases "exec_op x fs")
    case (Inl e)
    then show ?thesis by simp
  next
    case (Inr fs')
    with Cons.prems have "fs' name = fs name" by (auto dest: exec_op_frame)
    moreover from Cons have "snd (run_ops ops fs') name = fs' name" by simp
    ultimately show ?thesis using Inr by simp
  qed
qed

lemma run_ops_append:
  "run_ops (xs @ ys) fs =
     (case run_ops xs fs of
        (Some e, fs') \<Rightarrow> (Some e, fs')
      | (None, fs') \<Rightarrow> run_ops ys fs')"
  by (induction xs arbitrary: fs) (auto split: sum.splits)

lemma merged_names_distinct: "merged_pd \<noteq> merged_dd"
  by (simp add: merged_pd_def merged_dd_def)

text \<open>
  Run from top to bottom the notebook never reaches its writes: every run stops with an
  exception, at a missing input or at the first \<open>read_stata\<close> call, and the directory is
  as before.
\<close>

lemma run_ops_reads:
  "\<forall>x\<in>set ops. \<exists>name. x = Read name \<Longrightarrow> snd (run_ops ops fs) = fs"
proof (induction ops)
  case Nil
  show ?case by simp
next
  case (Cons x ops)
  then obtain name where "x = Read name" by auto
  with Cons show ?case by (auto split: sum.splits)
qed

lemma dask_notebook_stops:
  "fst (run_ops (dask_notebook out_pd s1 s2) fs) \<noteq> None \<and>
   snd (run_ops (dask_notebook out_pd s1 s2) fs) = fs"
proof -
  let ?reads = "[Read DATA_FILE, Read DATA_FILE, Read DATA_FILE, Read DATA_FILE, Read DATA_FILE]"
  obtain rest where nb: "dask_notebook out_pd s1 s2 = ?reads @ ReadStataNrows DATA_FILE2 # rest"
    by (simp add: dask_notebook_def)
  have same: "snd (run_ops ?reads fs) = fs" by (rule run_ops_reads) simp
  obtain e fs' where r: "run_ops ?reads fs = (e, fs')" by (cases "run_ops ?reads fs")
  with same have "fs' = fs" by simp
  with r show ?thesis unfolding nb run_ops_append by (cases e) simp_all
qed

text \<open>
  The two functions followed by the cleanup cell never complete either: the Dask output is
  a directory, and \<open>os.remove\<close> raises on it after the pandas output has been deleted.
\<close>

lemma profile_and_cleanup_stops:
  "fst (run_ops (profile_and_cleanup out_pd) fs) \<noteq> None"
  using merged_names_distinct
  by (auto simp: profile_and_cleanup_def pd_profile_func_def dd_profile_func_def cleanup_cell_def
      pd_to_csv_def dd_to_csv_def os_remove_def split: option.splits entry.splits)



subsection \<open>Chunked and full mean\<close>

lemma series_sum_append: "series_sum (xs @ ys) = series_sum xs + series_sum ys"
  by (simp add: series_sum_def)

lemma series_count_append: "series_count (xs @ ys) = series_count xs + series_count ys"
  by (simp add: series_count_def)

lemma chunk_loop_concat:
  "chunk_loop chunks (tot, cnt) =
     (tot + series_sum (map export_value (concat chunks)),
      cnt + series_count (map export_value (concat chunks)))"
proof (induction chunks arbitrary: tot cnt)
  case Nil
  show ?case by (simp add: series_sum_def series_count_def)
next
  case (Cons chunk rest)
  show ?case
    by (simp add: Cons.IH series_sum_append series_count_append add.assoc)
qed

lemma chunked_mean_concat:
  "chunks \<noteq> [] \<Longrightarrow> chunked_mean chunks = Inr (full_data (concat chunks))"
  by (simp add: chunked_mean_def chunk_loop_concat full_data_def series_mean_def)

lemma concat_chunks_of: "0 < k \<Longrightarrow> concat (chunks_of k rows) = rows"
proof (induction k rows rule: chunks_of.induct)
  case (1 k rows)
  show ?case
  proof (cases "rows = []")
    case True
    then show ?thesis by (subst chunks_of.simps) simp
  next
    case False
    with "1.prems" have "concat (chunks_of k (drop k rows)) = drop k rows"
      by (intro "1.IH") auto
    with False "1.prems" show ?thesis by (subst chunks_of.simps) simp
  qed
qed

lemma read_csv_chunks_concat: "0 < k \<Longrightarrow> concat (read_csv_chunks k rows) = rows"
  by (simp add: read_csv_chunks_def concat_chunks_of)

lemma read_csv_chunks_nonempty: "0 < k \<Longrightarrow> read_csv_chunks k rows \<noteq> []"
  by (cases "rows = []") (simp_all add: read_csv_chunks_def chunks_of.simps [of k rows])

text \<open>
  Claim C10. For every sequence of chunks that has at least one chunk (the reader always
  yields one, also for a table without rows), the sum of the per-chunk sums of
  \<open>export_value\<close> divided by the sum of the per-chunk counts equals the mean of
  \<open>export_value\<close> over the concatenated rows, missing values left out of sums and counts
  alike and \<open>NaN\<close> on both sides when no value is left; and \<open>chunked_data\<close> computes the
  same mean as \<open>full_data\<close> for every table.
\<close>

theorem chunked_data_same_mean:
  "(chunks \<noteq> [] \<longrightarrow> chunked_mean chunks = Inr (full_data (concat chunks))) \<and>
   chunked_data df = Inr (full_data df)"
proof
  show "chunks \<noteq> [] \<longrightarrow> chunked_mean chunks = Inr (full_data (concat chunks))"
    by (simp add: chunked_mean_concat)
next
  have k: "(0::nat) < 100000" by simp
  from read_csv_chunks_nonempty [OF k, of df]
  have "chunked_mean (read_csv_chunks 100000 df) = Inr (full_data (concat (read_csv_chunks 100000 df)))"
    by (rule chunked_mean_concat)
  then show "chunked_data df = Inr (full_data df)"
    by (simp add: chunked_data_def read_csv_chunks_concat [OF k])
qed

text \<open>
  Three rows, one of them without a value, read in two chunks.
\<close>

theorem chunked_data_same_mean_witness:
  "[[example_row (Some 1), example_row None], [example_row (Some 3)]] \<noteq> [] \<and>
   chunked_mean [[example_row (Some 1), example_row None], [example_row (Some 3)]] =
     Inr (full_data [example_row (Some 1), example_row None, example_row (Some 3)]) \<and>
   full_data [example_row (Some 1), example_row None, example_row (Some 3)] = Some 2 \<and>
   chunked_data [example_row (Some 1), example_row None, example_row (Some 3)] = Inr (Some 2)"
proof -
  let ?chunks = "[[example_row (Some 1), example_row None], [example_row (Some 3)]]"
  let ?df = "[example_row (Some 1), example_row None, example_row (Some 3)]"
  have ne: "?chunks \<noteq> []" by simp
  have full: "full_data ?df = Some 2"
    by (simp add: full_data_def series_mean_def series_sum_def series_count_def example_row_def)
  from chunked_data_same_mean [of ?chunks ?df] ne full show ?thesis by simp
qed

end
